theory Spec2Isabelle
  imports
    Complex_Main
    "HOL-Library.Char_ord"
    "HOL-Library.List_Lexorder"
    "HOL-Library.Product_Lexorder"
begin

section \<open>Data model\<close>

text \<open>
  The dataclass \<open>Process\<close> of \<open>sheduler.py\<close>. Python's unbounded integers are \<open>int\<close>,
  the \<open>Optional[int]\<close> fields are \<open>int option\<close> (\<open>None\<close> is \<open>None\<close>), the pid is a
  string. Strings are compared as Python compares them, character by character
  (the lexicographic order on \<open>char list\<close>).
\<close>

record process =
  pid :: string
  arrival_time :: int
  burst_time :: int
  priority :: int
  start_time :: "int option"
  completion_time :: "int option"
  waiting_time :: "int option"
  turnaround_time :: "int option"
  remaining_time :: "int option"

text \<open>
  A Python list of processes is a list of references to mutable objects. The objects
  live in a store (reference to object); the content of a list of processes is a list of
  references, so that a sorted copy or a queue shares its objects with the caller's
  list, as in Python.
\<close>

type_synonym ref = nat
type_synonym heap = "ref \<Rightarrow> process"

text \<open>
  The list that a caller passes is itself a mutable object: \<open>append\<close>, \<open>pop\<close>, \<open>sort\<close> and
  the like would change it for the caller. The list objects live in a second store
  (list reference to content); the entry points take the reference of the caller's list
  and a \<open>world\<close>, the two stores, and return the world after the call. The lists that a
  function creates for itself (\<open>sorted(...)\<close>, \<open>processes[:]\<close>, a comprehension, \<open>[]\<close>) are new
  objects that no caller holds; they are local values of the function.
\<close>

type_synonym lref = nat

record world =
  objects :: heap
  list_store :: "lref \<Rightarrow> ref list"

text \<open>A Gantt block \<open>(start_time, end_time, pid)\<close>; the idle label is the string \<open>Idle\<close>.\<close>

type_synonym gantt_block = "int \<times> int \<times> string"

datatype error = ValueError | TypeError | OverflowError | ZeroDivisionError

text \<open>
  Python's \<open>/\<close> on two integers is true division: it returns the float nearest to the
  quotient, and raises \<open>OverflowError\<close> when the quotient is beyond the range of the floats
  (\<open>ZeroDivisionError\<close> when the divisor is zero). A float is represented by the rational
  number that is its value, \<open>0.0\<close> by \<open>0\<close>. The operation itself is a parameter
  \<open>truediv\<close> of every function that divides, directly or through a call: the theorems
  hold for every such operation, Python's among them.
\<close>

type_synonym truediv = "int \<Rightarrow> int \<Rightarrow> error + rat"

text \<open>The outcome of one pass through a \<open>while\<close> body: \<open>continue\<close> (or falling off the
  end of the body), \<open>break\<close>, or an exception.\<close>

datatype 'a step = Continue 'a | Break 'a | Raise error 'a

section \<open>Helper functions\<close>

definition reset_one :: "process \<Rightarrow> process" where
  "reset_one p = p\<lparr>start_time := None, completion_time := None, waiting_time := None,
                   turnaround_time := None, remaining_time := Some (burst_time p)\<rparr>"

text \<open>\<open>reset_processes\<close>: the \<open>for\<close> loop over the content of the list, one object at a
  time. The loop writes fields of objects and leaves the list alone.\<close>

fun reset_loop :: "ref list \<Rightarrow> heap \<Rightarrow> heap" where
  "reset_loop [] h = h"
| "reset_loop (a # as) h = reset_loop as (h(a := reset_one (h a)))"

definition reset_processes :: "lref \<Rightarrow> world \<Rightarrow> world" where
  "reset_processes processes w = w\<lparr>objects := reset_loop (list_store w processes) (objects w)\<rparr>"

text \<open>
  \<open>compute_metrics\<close>: the loop carries the two running totals and the store of objects.
  The returned dictionary is a record of the two averages. The two divisions come after
  the loop, the one for the waiting time first; when one of them raises, the objects
  have their metrics already and no dictionary is returned.
\<close>

record metrics =
  avg_waiting_time :: rat
  avg_turnaround_time :: rat

fun metrics_loop :: "ref list \<Rightarrow> int \<times> int \<times> heap \<Rightarrow> int \<times> int \<times> heap" where
  "metrics_loop [] acc = acc"
| "metrics_loop (a # as) (total_waiting, total_turnaround, h) =
     (case completion_time (h a) of
        None \<Rightarrow> metrics_loop as (total_waiting, total_turnaround, h)
      | Some c \<Rightarrow>
          (let ta = c - arrival_time (h a);
               w = ta - burst_time (h a);
               h' = h(a := (h a)\<lparr>turnaround_time := Some ta, waiting_time := Some w\<rparr>)
           in metrics_loop as (total_waiting + w, total_turnaround + ta, h')))"

definition compute_metrics :: "truediv \<Rightarrow> lref \<Rightarrow> world \<Rightarrow> (error + metrics) \<times> world" where
  "compute_metrics truediv processes w =
     (let n = length (list_store w processes);
          (total_waiting, total_turnaround, h') =
             metrics_loop (list_store w processes) (0, 0, objects w);
          w' = w\<lparr>objects := h'\<rparr>
      in case (if n > 0 then truediv total_waiting (int n) else Inr 0) of
           Inl e \<Rightarrow> (Inl e, w')
         | Inr avg_waiting \<Rightarrow>
             (case (if n > 0 then truediv total_turnaround (int n) else Inr 0) of
                Inl e \<Rightarrow> (Inl e, w')
              | Inr avg_turnaround \<Rightarrow>
                  (Inr \<lparr>avg_waiting_time = avg_waiting,
                        avg_turnaround_time = avg_turnaround\<rparr>, w')))"

section \<open>First-come first-served\<close>

text \<open>\<open>sorted\<close> returns a new list and is stable, as \<open>sort_key\<close> is; the key is the pair
  \<open>(arrival_time, pid)\<close>, compared lexicographically. The closing call of
  \<open>compute_metrics\<close> can raise; then no timeline is returned.\<close>

fun fcfs_loop :: "ref list \<Rightarrow> int \<times> gantt_block list \<times> heap \<Rightarrow> int \<times> gantt_block list \<times> heap" where
  "fcfs_loop [] st = st"
| "fcfs_loop (a # as) (time, schedule, h) =
     (let (schedule1, time1) =
            (if time < arrival_time (h a)
             then (schedule @ [(time, arrival_time (h a), ''Idle'')], arrival_time (h a))
             else (schedule, time));
          h1 = h(a := (h a)\<lparr>start_time := Some time1\<rparr>);
          time2 = time1 + burst_time (h1 a);
          h2 = h1(a := (h1 a)\<lparr>completion_time := Some time2\<rparr>)
      in fcfs_loop as (time2, schedule1 @ [(time1, time2, pid (h2 a))], h2))"

definition fcfs :: "truediv \<Rightarrow> lref \<Rightarrow> world \<Rightarrow> (error + gantt_block list) \<times> world" where
  "fcfs truediv processes w =
     (let w0 = reset_processes processes w;
          procs = sort_key (\<lambda>a. (arrival_time (objects w0 a), pid (objects w0 a)))
                    (list_store w0 processes);
          (time, schedule, h1) = fcfs_loop procs (0, [], objects w0)
      in case compute_metrics truediv processes (w0\<lparr>objects := h1\<rparr>) of
           (Inl e, w2) \<Rightarrow> (Inl e, w2)
         | (Inr m, w2) \<Rightarrow> (Inr schedule, w2))"

section \<open>Shortest job first and priority scheduling, non-preemptive\<close>

text \<open>
  \<open>sjf_non_preemptive\<close> and \<open>priority_non_preemptive\<close> have the same body; they differ
  only in the key of the \<open>min\<close> that selects the next process. The loop is written once,
  with that key as a parameter. \<open>min\<close> with a key returns the first minimal element of
  the list, as \<open>arg_min_list\<close> does.
\<close>

record np_state =
  np_heap :: heap
  np_time :: int
  np_completed :: nat
  np_schedule :: "gantt_block list"

definition np_ready :: "ref list \<Rightarrow> heap \<Rightarrow> int \<Rightarrow> ref list" where
  "np_ready remaining h time =
     filter (\<lambda>a. completion_time (h a) = None \<and> arrival_time (h a) \<le> time) remaining"

definition np_next_arrivals :: "ref list \<Rightarrow> heap \<Rightarrow> int list" where
  "np_next_arrivals remaining h =
     map (\<lambda>a. arrival_time (h a)) (filter (\<lambda>a. completion_time (h a) = None) remaining)"

definition np_body :: "(process \<Rightarrow> int \<times> int \<times> string) \<Rightarrow> ref list \<Rightarrow> np_state \<Rightarrow> np_state step" where
  "np_body key remaining st =
     (let h = np_heap st; time = np_time st;
          ready = np_ready remaining h time
      in if ready = [] then
           (let next_arrivals = np_next_arrivals remaining h
            in if next_arrivals = [] then Break st
               else (let next_time = min_list next_arrivals
                     in Continue (st\<lparr>np_schedule := np_schedule st @ [(time, next_time, ''Idle'')],
                                      np_time := next_time\<rparr>)))
         else
           (let a = arg_min_list (\<lambda>x. key (h x)) ready;
                h1 = h(a := (h a)\<lparr>start_time := Some time\<rparr>);
                time1 = time + burst_time (h1 a);
                h2 = h1(a := (h1 a)\<lparr>completion_time := Some time1\<rparr>)
            in Continue \<lparr>np_heap = h2, np_time = time1, np_completed = np_completed st + 1,
                         np_schedule = np_schedule st @ [(time, time1, pid (h2 a))]\<rparr>))"

function np_loop :: "(process \<Rightarrow> int \<times> int \<times> string) \<Rightarrow> ref list \<Rightarrow> np_state \<Rightarrow> np_state" where
  "np_loop key remaining st =
     (if np_completed st < length remaining then
        (case np_body key remaining st of
           Continue st' \<Rightarrow> np_loop key remaining st'
         | Break st' \<Rightarrow> st'
         | Raise e st' \<Rightarrow> st')
      else st)"
  by pat_completeness auto

text \<open>Termination: every pass either dispatches a process, or jumps the clock to an
  arrival, after which the ready list is not empty.\<close>

lemma min_list_mem: "xs \<noteq> [] \<Longrightarrow> min_list xs \<in> set (xs :: 'a::linorder list)"
  using Min_in [of "set xs"] by (simp add: min_list_Min)

lemma np_ready_after_jump:
  assumes "np_next_arrivals remaining h \<noteq> []"
  shows "np_ready remaining h (min_list (np_next_arrivals remaining h)) \<noteq> []"
proof -
  from assms have "min_list (np_next_arrivals remaining h) \<in> set (np_next_arrivals remaining h)"
    by (rule min_list_mem)
  then obtain a where "a \<in> set remaining" "completion_time (h a) = None"
      "arrival_time (h a) = min_list (np_next_arrivals remaining h)"
    by (auto simp: np_next_arrivals_def)
  then have "a \<in> set (np_ready remaining h (min_list (np_next_arrivals remaining h)))"
    by (simp add: np_ready_def)
  then show ?thesis by auto
qed

definition np_measure :: "ref list \<Rightarrow> np_state \<Rightarrow> nat" where
  "np_measure remaining st =
     2 * (length remaining - np_completed st)
     + (if np_ready remaining (np_heap st) (np_time st) = [] then 1 else 0)"

lemma np_body_decreases:
  assumes "np_completed st < length remaining" "np_body key remaining st = Continue st'"
  shows "np_measure remaining st' < np_measure remaining st"
proof (cases "np_ready remaining (np_heap st) (np_time st) = []")
  case True
  with assms(2) have na: "np_next_arrivals remaining (np_heap st) \<noteq> []"
    and st': "st' = st\<lparr>np_schedule := np_schedule st @
        [(np_time st, min_list (np_next_arrivals remaining (np_heap st)), ''Idle'')],
        np_time := min_list (np_next_arrivals remaining (np_heap st))\<rparr>"
    by (auto simp: np_body_def Let_def split: if_splits)
  from np_ready_after_jump[OF na] show ?thesis
    using True by (simp add: np_measure_def st')
next
  case False
  with assms(2) have "np_completed st' = np_completed st + 1"
    by (auto simp: np_body_def Let_def split: if_splits)
  with assms(1) False show ?thesis unfolding np_measure_def by (auto split: if_splits)
qed

termination np_loop
  by (relation "measure (\<lambda>(key, remaining, st). np_measure remaining st)")
     (auto dest: np_body_decreases)

declare np_loop.simps [simp del]

definition np_schedule_run ::
  "(process \<Rightarrow> int \<times> int \<times> string) \<Rightarrow> truediv \<Rightarrow> lref \<Rightarrow> world \<Rightarrow>
   (error + gantt_block list) \<times> world" where
  "np_schedule_run key truediv processes w =
     (let w0 = reset_processes processes w;
          remaining = list_store w0 processes;
          time = (if remaining \<noteq> []
                  then min_list (map (\<lambda>a. arrival_time (objects w0 a)) remaining) else 0);
          st = np_loop key remaining
                 \<lparr>np_heap = objects w0, np_time = time, np_completed = 0, np_schedule = []\<rparr>
      in case compute_metrics truediv processes (w0\<lparr>objects := np_heap st\<rparr>) of
           (Inl e, w2) \<Rightarrow> (Inl e, w2)
         | (Inr m, w2) \<Rightarrow> (Inr (np_schedule st), w2))"

definition sjf_key :: "process \<Rightarrow> int \<times> int \<times> string" where
  "sjf_key x = (burst_time x, arrival_time x, pid x)"

definition priority_key :: "process \<Rightarrow> int \<times> int \<times> string" where
  "priority_key x = (priority x, arrival_time x, pid x)"

definition sjf_non_preemptive ::
  "truediv \<Rightarrow> lref \<Rightarrow> world \<Rightarrow> (error + gantt_block list) \<times> world" where
  "sjf_non_preemptive truediv processes w = np_schedule_run sjf_key truediv processes w"

definition priority_non_preemptive ::
  "truediv \<Rightarrow> lref \<Rightarrow> world \<Rightarrow> (error + gantt_block list) \<times> world" where
  "priority_non_preemptive truediv processes w =
     np_schedule_run priority_key truediv processes w"

section \<open>Round robin\<close>

record rr_state =
  rr_heap :: heap
  rr_i :: nat
  rr_ready_queue :: "ref list"
  rr_time :: int
  rr_schedule :: "gantt_block list"

text \<open>The admission loop \<open>while i < n and procs[i].arrival_time <= time\<close>, which
  occurs twice in the body of the main loop.\<close>

function admit :: "ref list \<Rightarrow> rr_state \<Rightarrow> rr_state" where
  "admit procs st =
     (if rr_i st < length procs \<and> arrival_time (rr_heap st (procs ! rr_i st)) \<le> rr_time st then
        (let a = procs ! rr_i st;
             h = rr_heap st
         in admit procs
              (st\<lparr>rr_ready_queue := rr_ready_queue st @ [a],
                  rr_heap := h(a := (h a)\<lparr>remaining_time := Some (burst_time (h a))\<rparr>),
                  rr_i := rr_i st + 1\<rparr>))
      else st)"
  by pat_completeness auto
termination
  by (relation "measure (\<lambda>(procs, st). length procs - rr_i st)") auto

declare admit.simps [simp del]

text \<open>
  One pass through the body of the main loop, in the blocks of the source: the jump to
  the next arrival when nothing is ready, the first dispatch of a process, the run of
  one slice, and the choice between putting the process back in the queue and completing
  it. \<open>min(quantum, None)\<close> and \<open>None > 0\<close> raise \<open>TypeError\<close> in Python; both are
  branches of the model.
\<close>

definition idle_jump :: "ref list \<Rightarrow> rr_state \<Rightarrow> rr_state" where
  "idle_jump procs st =
     (let next_arrival = arrival_time (rr_heap st (procs ! rr_i st))
      in if rr_time st < next_arrival
         then st\<lparr>rr_schedule := rr_schedule st @ [(rr_time st, next_arrival, ''Idle'')],
                 rr_time := next_arrival\<rparr>
         else st)"

definition first_dispatch :: "ref \<Rightarrow> int \<Rightarrow> heap \<Rightarrow> heap" where
  "first_dispatch current time h =
     (if start_time (h current) = None then
        (let ha = h(current := (h current)\<lparr>start_time := Some time\<rparr>)
         in if remaining_time (ha current) = None
            then ha(current := (ha current)\<lparr>remaining_time := Some (burst_time (ha current))\<rparr>)
            else ha)
      else h)"

definition run_slice :: "int \<Rightarrow> ref \<Rightarrow> int \<Rightarrow> rr_state \<Rightarrow> rr_state" where
  "run_slice quantum current rem st =
     (let run_time = min quantum rem;
          start = rr_time st;
          time = rr_time st + run_time;
          end = time;
          h = rr_heap st;
          h' = h(current := (h current)\<lparr>remaining_time := Some (rem - run_time)\<rparr>)
      in st\<lparr>rr_heap := h', rr_time := time,
            rr_schedule := rr_schedule st @ [(start, end, pid (h' current))]\<rparr>)"

definition requeue_or_complete :: "ref \<Rightarrow> int \<Rightarrow> rr_state \<Rightarrow> rr_state" where
  "requeue_or_complete current r st =
     (if r > 0
      then st\<lparr>rr_ready_queue := rr_ready_queue st @ [current]\<rparr>
      else st\<lparr>rr_heap := (rr_heap st)(current :=
                 (rr_heap st current)\<lparr>completion_time := Some (rr_time st)\<rparr>)\<rparr>)"

definition rr_body :: "int \<Rightarrow> ref list \<Rightarrow> rr_state \<Rightarrow> rr_state step" where
  "rr_body quantum procs st0 =
     (let st = admit procs st0
      in case rr_ready_queue st of
           [] \<Rightarrow> (if rr_i st < length procs then Continue (idle_jump procs st) else Break st)
         | current # rest \<Rightarrow>
             (let st1 = st\<lparr>rr_ready_queue := rest,
                          rr_heap := first_dispatch current (rr_time st) (rr_heap st)\<rparr>
              in case remaining_time (rr_heap st1 current) of
                   None \<Rightarrow> Raise TypeError st1
                 | Some rem \<Rightarrow>
                     (let st3 = admit procs (run_slice quantum current rem st1)
                      in case remaining_time (rr_heap st3 current) of
                           None \<Rightarrow> Raise TypeError st3
                         | Some r \<Rightarrow> Continue (requeue_or_complete current r st3))))"

text \<open>
  The main loop. \<open>round_robin\<close> enters it only after the check that raises for
  \<open>quantum <= 0\<close>; the loop repeats that condition, so that it is a total function
  (with a quantum of zero the Python loop would not end).
\<close>

function rr_loop :: "int \<Rightarrow> ref list \<Rightarrow> rr_state \<Rightarrow> error option \<times> rr_state" where
  "rr_loop quantum procs st =
     (if 0 < quantum \<and> (rr_i st < length procs \<or> rr_ready_queue st \<noteq> []) then
        (case rr_body quantum procs st of
           Continue st' \<Rightarrow> rr_loop quantum procs st'
         | Break st' \<Rightarrow> (None, st')
         | Raise e st' \<Rightarrow> (Some e, st'))
      else (None, st))"
  by pat_completeness auto

text \<open>Termination of the main loop: every pass admits a process, or shortens the work
  left in the ready queue, or is an idle jump after which a process is admitted.\<close>

definition admit_cond :: "ref list \<Rightarrow> rr_state \<Rightarrow> bool" where
  "admit_cond procs st \<longleftrightarrow>
     rr_i st < length procs \<and> arrival_time (rr_heap st (procs ! rr_i st)) \<le> rr_time st"

definition admit_one :: "ref list \<Rightarrow> rr_state \<Rightarrow> rr_state" where
  "admit_one procs st =
     st\<lparr>rr_ready_queue := rr_ready_queue st @ [procs ! rr_i st],
        rr_heap := (rr_heap st)(procs ! rr_i st :=
           (rr_heap st (procs ! rr_i st))\<lparr>remaining_time := Some (burst_time (rr_heap st (procs ! rr_i st)))\<rparr>),
        rr_i := rr_i st + 1\<rparr>"

lemma admit_step: "admit_cond procs st \<Longrightarrow> admit procs st = admit procs (admit_one procs st)"
  by (subst admit.simps) (simp add: admit_cond_def admit_one_def Let_def)

lemma admit_stop: "\<not> admit_cond procs st \<Longrightarrow> admit procs st = st"
  by (subst admit.simps) (auto simp add: admit_cond_def)

lemma admit_induct [case_names step stop]:
  assumes step: "\<And>st. admit_cond procs st \<Longrightarrow> P (admit_one procs st) \<Longrightarrow> P st"
    and stop: "\<And>st. \<not> admit_cond procs st \<Longrightarrow> P st"
  shows "P st"
proof (induction "length procs - rr_i st" arbitrary: st rule: less_induct)
  case less
  show ?case
  proof (cases "admit_cond procs st")
    case True
    then have "length procs - rr_i (admit_one procs st) < length procs - rr_i st"
      by (auto simp: admit_cond_def admit_one_def)
    then have "P (admit_one procs st)" by (rule less)
    then show ?thesis using True step by blast
  next
    case False
    then show ?thesis by (rule stop)
  qed
qed

lemma admit_post: "\<not> admit_cond procs (admit procs st)"
  by (induction st rule: admit_induct[of procs]) (simp_all add: admit_step admit_stop)

lemma admit_time [simp]: "rr_time (admit procs st) = rr_time st"
  by (induction st rule: admit_induct[of procs])
     (simp_all add: admit_step admit_stop admit_one_def)

lemma admit_schedule [simp]: "rr_schedule (admit procs st) = rr_schedule st"
  by (induction st rule: admit_induct[of procs])
     (simp_all add: admit_step admit_stop admit_one_def)

lemma admit_i_mono: "rr_i st \<le> rr_i (admit procs st)"
  by (induction st rule: admit_induct[of procs])
     (simp_all add: admit_step admit_stop admit_one_def)

lemma admit_id_or_less:
  "admit procs st = st \<or> length procs - rr_i (admit procs st) < length procs - rr_i st"
proof (cases "admit_cond procs st")
  case True
  have "rr_i (admit_one procs st) \<le> rr_i (admit procs (admit_one procs st))"
    by (rule admit_i_mono)
  then have "rr_i st < rr_i (admit procs st)"
    using True by (simp add: admit_step) (simp add: admit_one_def)
  moreover have "rr_i st < length procs" using True by (simp add: admit_cond_def)
  ultimately have "length procs - rr_i (admit procs st) < length procs - rr_i st" by arith
  then show ?thesis by simp
next
  case False
  then show ?thesis by (simp add: admit_stop)
qed

definition rr_weight :: "process \<Rightarrow> nat" where
  "rr_weight p = 1 + nat (case remaining_time p of Some r \<Rightarrow> r | None \<Rightarrow> burst_time p)"

definition rr_m1 :: "ref list \<Rightarrow> rr_state \<Rightarrow> nat" where
  "rr_m1 procs st = length procs - rr_i st"

definition rr_m2 :: "rr_state \<Rightarrow> nat" where
  "rr_m2 st = sum_list (map (\<lambda>a. rr_weight (rr_heap st a)) (rr_ready_queue st))"

definition rr_m3 :: "ref list \<Rightarrow> rr_state \<Rightarrow> nat" where
  "rr_m3 procs st =
     (if rr_i st < length procs \<and> arrival_time (rr_heap st (procs ! rr_i st)) \<le> rr_time st then 0 else 1)"

lemma sum_list_weight_mono:
  assumes "\<And>a. f a \<le> (g a :: nat)"
  shows "sum_list (map f xs) \<le> sum_list (map g xs)"
  using assms by (induction xs) (auto intro: add_mono)

lemma weight_first_dispatch:
  "rr_weight (first_dispatch current time h a) = rr_weight (h a)"
  by (auto simp: first_dispatch_def rr_weight_def Let_def split: option.splits)

lemma rr_body_decreases:
  assumes q: "0 < quantum" and body: "rr_body quantum procs st = Continue st'"
  shows "rr_m1 procs st' < rr_m1 procs st \<or>
         (rr_m1 procs st' = rr_m1 procs st \<and>
           (rr_m2 st' < rr_m2 st \<or> (rr_m2 st' = rr_m2 st \<and> rr_m3 procs st' < rr_m3 procs st)))"
proof -
  define sa where "sa = admit procs st"
  have le1: "rr_i st \<le> rr_i sa" unfolding sa_def by (rule admit_i_mono)
  show ?thesis
  proof (cases "rr_ready_queue sa")
    case Nil
    from body Nil have i: "rr_i sa < length procs" and st': "st' = idle_jump procs sa"
      by (auto simp: rr_body_def Let_def sa_def[symmetric] split: if_splits)
    from admit_post[of procs st] i
    have lt: "rr_time sa < arrival_time (rr_heap sa (procs ! rr_i sa))"
      by (simp add: sa_def admit_cond_def)
    from admit_id_or_less[of procs st] show ?thesis
    proof
      assume "admit procs st = st"
      then have "sa = st" by (simp add: sa_def)
      then show ?thesis using st' Nil i lt
        by (simp add: rr_m1_def rr_m2_def rr_m3_def idle_jump_def Let_def)
    next
      assume "length procs - rr_i (admit procs st) < length procs - rr_i st"
      then show ?thesis using st' lt by (simp add: rr_m1_def sa_def idle_jump_def Let_def)
    qed
  next
    case (Cons current rest)
    define h where "h = rr_heap sa"
    define h1 where "h1 = first_dispatch current (rr_time sa) h"
    define st1 where "st1 = sa\<lparr>rr_ready_queue := rest, rr_heap := h1\<rparr>"
    have h1: "rr_heap st1 = h1" by (simp add: st1_def)
    from body Cons obtain rem where rem: "remaining_time (h1 current) = Some rem"
      by (auto simp: rr_body_def Let_def sa_def[symmetric] h_def[symmetric] h1_def[symmetric]
            split: option.splits)
    define st2 where "st2 = run_slice quantum current rem st1"
    define st3 where "st3 = admit procs st2"
    from body Cons rem obtain r where r: "remaining_time (rr_heap st3 current) = Some r"
      and st': "st' = requeue_or_complete current r st3"
      by (auto simp: rr_body_def Let_def sa_def[symmetric] h_def[symmetric] h1_def[symmetric]
            st1_def[symmetric] st2_def[symmetric] st3_def[symmetric] split: option.splits)
    have i': "rr_i st' = rr_i st3" using st' by (simp add: requeue_or_complete_def)
    have i2: "rr_i st2 = rr_i sa" by (simp add: st2_def st1_def run_slice_def Let_def)
    have le2: "rr_i st2 \<le> rr_i st3" unfolding st3_def by (rule admit_i_mono)
    show ?thesis
    proof (cases "admit procs st = st \<and> admit procs st2 = st2")
      case False
      then have "length procs - rr_i sa < length procs - rr_i st \<or>
                 length procs - rr_i st3 < length procs - rr_i st2"
        using admit_id_or_less[of procs st] admit_id_or_less[of procs st2]
        by (auto simp: sa_def st3_def)
      then have "rr_m1 procs st' < rr_m1 procs st"
        using i' i2 le1 le2 by (auto simp: rr_m1_def)
      then show ?thesis by simp
    next
      case True
      then have sa: "sa = st" and s3: "st3 = st2" by (simp_all add: sa_def st3_def)
      have m1: "rr_m1 procs st' = rr_m1 procs st"
        using i' i2 sa s3 by (simp add: rr_m1_def)
      define h2 where "h2 = h1(current := (h1 current)\<lparr>remaining_time := Some (rem - min quantum rem)\<rparr>)"
      have st2h: "rr_heap st2 = h2" and st2q: "rr_ready_queue st2 = rest"
        by (simp_all add: st2_def run_slice_def Let_def st1_def h2_def)
      have r_eq: "r = rem - min quantum rem" using r s3 st2h by (simp add: h2_def)
      have w1: "\<And>a. rr_weight (h1 a) = rr_weight (h a)"
        unfolding h1_def by (rule weight_first_dispatch)
      have wrem: "rr_weight (h current) = 1 + nat rem"
        using w1[of current] rem by (simp add: rr_weight_def)
      have m2: "rr_m2 st = rr_weight (h current) + sum_list (map (\<lambda>a. rr_weight (h a)) rest)"
        using Cons sa by (simp add: rr_m2_def h_def)
      show ?thesis
      proof (cases "r > 0")
        case True
        then have remq: "rem > quantum" using r_eq by (auto simp: min_def split: if_splits)
        have w2c: "rr_weight (h2 current) < rr_weight (h current)"
          using remq q wrem by (auto simp: h2_def rr_weight_def min_def)
        have w2: "\<And>a. rr_weight (h2 a) \<le> rr_weight (h a)"
        proof -
          fix a show "rr_weight (h2 a) \<le> rr_weight (h a)"
          proof (cases "a = current")
            case True then show ?thesis using w2c by simp
          next
            case False then show ?thesis using w1[of a] by (simp add: h2_def)
          qed
        qed
        have "rr_m2 st' = sum_list (map (\<lambda>a. rr_weight (h2 a)) rest) + rr_weight (h2 current)"
          using st' True s3 st2h st2q by (simp add: rr_m2_def requeue_or_complete_def)
        also have "\<dots> < sum_list (map (\<lambda>a. rr_weight (h a)) rest) + rr_weight (h current)"
          using sum_list_weight_mono[of "\<lambda>a. rr_weight (h2 a)" "\<lambda>a. rr_weight (h a)" rest, OF w2] w2c
          by linarith
        finally show ?thesis using m1 m2 by simp
      next
        case False
        then have r0: "rem - min quantum rem \<le> 0" using r_eq by simp
        define h4 where "h4 = h2(current := (h2 current)\<lparr>completion_time := Some (rr_time st2)\<rparr>)"
        have w4: "\<And>a. rr_weight (h4 a) \<le> rr_weight (h a)"
        proof -
          fix a show "rr_weight (h4 a) \<le> rr_weight (h a)"
          proof (cases "a = current")
            case True then show ?thesis using r0 wrem by (simp add: h4_def h2_def rr_weight_def)
          next
            case False then show ?thesis using w1[of a] by (simp add: h4_def h2_def)
          qed
        qed
        have "rr_m2 st' = sum_list (map (\<lambda>a. rr_weight (h4 a)) rest)"
          using st' False s3 st2h st2q by (simp add: rr_m2_def requeue_or_complete_def h4_def)
        also have "\<dots> \<le> sum_list (map (\<lambda>a. rr_weight (h a)) rest)"
          by (rule sum_list_weight_mono[OF w4])
        also have "\<dots> < rr_m2 st" using m2 by (simp add: rr_weight_def)
        finally show ?thesis using m1 by simp
      qed
    qed
  qed
qed

termination rr_loop
proof (relation "measures [\<lambda>(q, procs, st). rr_m1 procs st, \<lambda>(q, procs, st). rr_m2 st,
                             \<lambda>(q, procs, st). rr_m3 procs st]", goal_cases)
  case 1
  show ?case by simp
next
  case (2 quantum procs st st')
  then have "0 < quantum" and "rr_body quantum procs st = Continue st'" by simp_all
  from rr_body_decreases[OF this] show ?case by simp
qed

declare rr_loop.simps [simp del]

definition round_robin ::
  "truediv \<Rightarrow> lref \<Rightarrow> int \<Rightarrow> world \<Rightarrow> (error + gantt_block list) \<times> world" where
  "round_robin truediv processes quantum w =
     (if quantum \<le> 0 then (Inl ValueError, w)
      else
        (let w0 = reset_processes processes w;
             procs = sort_key (\<lambda>a. arrival_time (objects w0 a)) (list_store w0 processes);
             n = length procs;
             time = (if n > 0 then arrival_time (objects w0 (procs ! 0)) else 0)
         in case rr_loop quantum procs
                   \<lparr>rr_heap = objects w0, rr_i = 0, rr_ready_queue = [], rr_time = time,
                    rr_schedule = []\<rparr> of
              (Some e, st) \<Rightarrow> (Inl e, w0\<lparr>objects := rr_heap st\<rparr>)
            | (None, st) \<Rightarrow>
                (case compute_metrics truediv processes (w0\<lparr>objects := rr_heap st\<rparr>) of
                   (Inl e, w2) \<Rightarrow> (Inl e, w2)
                 | (Inr m, w2) \<Rightarrow> (Inr (rr_schedule st), w2))))"

section \<open>A worked example\<close>

text \<open>The constructor of the dataclass: the five run-time fields default to \<open>None\<close>.\<close>

definition new_process :: "string \<Rightarrow> int \<Rightarrow> int \<Rightarrow> int \<Rightarrow> process" where
  "new_process p a b pr = \<lparr>pid = p, arrival_time = a, burst_time = b, priority = pr,
     start_time = None, completion_time = None, waiting_time = None, turnaround_time = None,
     remaining_time = None\<rparr>"

text \<open>The three processes P1(arrival 0, burst 4), P2(arrival 1, burst 3) and
  P3(arrival 2, burst 1), at the references 0, 1 and 2.\<close>

definition example_heap :: heap where
  "example_heap = (\<lambda>a. if a = 0 then new_process ''P1'' 0 4 0
                        else if a = 1 then new_process ''P2'' 1 3 0
                        else new_process ''P3'' 2 1 0)"

text \<open>The caller's list \<open>[P1, P2, P3]\<close> is the list object at the reference 0; the other
  list objects are empty.\<close>

definition example_world :: world where
  "example_world = \<lparr>objects = example_heap, list_store = (\<lambda>l. if l = 0 then [0, 1, 2] else [])\<rparr>"

text \<open>True division without rounding and without overflow: the quotient itself. It is
  one instance of the parameter \<open>truediv\<close>; Python's differs from it by the rounding to
  the nearest float and by the overflow.\<close>

definition exact_div :: truediv where
  "exact_div a b = (if b = 0 then Inl ZeroDivisionError else Inr (of_int a / of_int b))"

section \<open>The metrics in closed form\<close>

definition spec_turnaround :: "process \<Rightarrow> int" where
  "spec_turnaround p = (case completion_time p of None \<Rightarrow> 0 | Some c \<Rightarrow> c - arrival_time p)"

definition spec_waiting :: "process \<Rightarrow> int" where
  "spec_waiting p =
     (case completion_time p of None \<Rightarrow> 0 | Some c \<Rightarrow> c - arrival_time p - burst_time p)"

definition spec_record_metrics :: "process \<Rightarrow> process" where
  "spec_record_metrics p =
     (case completion_time p of
        None \<Rightarrow> p
      | Some c \<Rightarrow> p\<lparr>turnaround_time := Some (c - arrival_time p),
                     waiting_time := Some (c - arrival_time p - burst_time p)\<rparr>)"

lemma spec_record_metrics_idem [simp]:
  "spec_record_metrics (spec_record_metrics p) = spec_record_metrics p"
  by (simp add: spec_record_metrics_def split: option.splits)

lemma spec_waiting_record [simp]: "spec_waiting (spec_record_metrics p) = spec_waiting p"
  by (simp add: spec_record_metrics_def spec_waiting_def split: option.splits)

lemma spec_turnaround_record [simp]: "spec_turnaround (spec_record_metrics p) = spec_turnaround p"
  by (simp add: spec_record_metrics_def spec_turnaround_def split: option.splits)

lemma metrics_loop_step:
  "metrics_loop (a # as) (tw, tt, h) =
     metrics_loop as (tw + spec_waiting (h a), tt + spec_turnaround (h a),
                      h(a := spec_record_metrics (h a)))"
  by (simp add: spec_waiting_def spec_turnaround_def spec_record_metrics_def Let_def
           split: option.splits)

lemma sum_list_cong_map:
  "(\<And>x. x \<in> set xs \<Longrightarrow> f x = g x) \<Longrightarrow> sum_list (map f xs) = (sum_list (map g xs) :: int)"
  by (induction xs) auto

lemma metrics_loop_closed:
  "metrics_loop ps (tw, tt, h) =
     (tw + (\<Sum>a\<leftarrow>ps. spec_waiting (h a)), tt + (\<Sum>a\<leftarrow>ps. spec_turnaround (h a)),
      (\<lambda>a. if a \<in> set ps then spec_record_metrics (h a) else h a))"
proof (induction ps arbitrary: tw tt h)
  case Nil
  show ?case by simp
next
  case (Cons a as)
  let ?h1 = "h(a := spec_record_metrics (h a))"
  have w: "(\<Sum>b\<leftarrow>as. spec_waiting (?h1 b)) = (\<Sum>b\<leftarrow>as. spec_waiting (h b))"
    by (rule sum_list_cong_map) simp
  have t: "(\<Sum>b\<leftarrow>as. spec_turnaround (?h1 b)) = (\<Sum>b\<leftarrow>as. spec_turnaround (h b))"
    by (rule sum_list_cong_map) simp
  have hh: "(\<lambda>b. if b \<in> set as then spec_record_metrics (?h1 b) else ?h1 b) =
            (\<lambda>b. if b \<in> set (a # as) then spec_record_metrics (h b) else h b)"
    by (rule ext) simp
  show ?case
    unfolding metrics_loop_step Cons.IH w t hh by simp
qed

text \<open>The outcome of the two divisions that close \<open>compute_metrics\<close>, and the store
  that its loop leaves.\<close>

definition averages :: "truediv \<Rightarrow> int \<Rightarrow> int \<Rightarrow> nat \<Rightarrow> error + metrics" where
  "averages truediv tw tt n =
     (case (if n > 0 then truediv tw (int n) else Inr 0) of
        Inl e \<Rightarrow> Inl e
      | Inr qw \<Rightarrow>
          (case (if n > 0 then truediv tt (int n) else Inr 0) of
             Inl e \<Rightarrow> Inl e
           | Inr qt \<Rightarrow> Inr \<lparr>avg_waiting_time = qw, avg_turnaround_time = qt\<rparr>))"

definition recorded :: "ref list \<Rightarrow> heap \<Rightarrow> heap" where
  "recorded ps h = (\<lambda>a. if a \<in> set ps then spec_record_metrics (h a) else h a)"

lemma compute_metrics_eq:
  "compute_metrics truediv processes w =
     (averages truediv (\<Sum>a\<leftarrow>list_store w processes. spec_waiting (objects w a))
        (\<Sum>a\<leftarrow>list_store w processes. spec_turnaround (objects w a)) (length (list_store w processes)),
      w\<lparr>objects := recorded (list_store w processes) (objects w)\<rparr>)"
  by (simp add: compute_metrics_def metrics_loop_closed Let_def averages_def recorded_def
           split: sum.splits)

section \<open>Static fields and the frame of a call\<close>

definition static :: "process \<Rightarrow> string \<times> int \<times> int \<times> int" where
  "static p = (pid p, arrival_time p, burst_time p, priority p)"

definition frame :: "ref set \<Rightarrow> heap \<Rightarrow> heap \<Rightarrow> bool" where
  "frame S h h' \<longleftrightarrow> (\<forall>a. static (h' a) = static (h a) \<and> (a \<notin> S \<longrightarrow> h' a = h a))"

lemma frame_refl [simp]: "frame S h h"
  by (simp add: frame_def)

lemma frame_trans: "frame S h h1 \<Longrightarrow> frame S h1 h2 \<Longrightarrow> frame S h h2"
  by (simp add: frame_def)

lemma frame_upd: "a \<in> S \<Longrightarrow> static p = static (h a) \<Longrightarrow> frame S h (h(a := p))"
  by (simp add: frame_def)

lemma frame_mono: "frame S h h' \<Longrightarrow> S \<subseteq> T \<Longrightarrow> frame T h h'"
  by (auto simp: frame_def)

lemma static_simps [simp]:
  "static (p\<lparr>start_time := x\<rparr>) = static p"
  "static (p\<lparr>completion_time := x\<rparr>) = static p"
  "static (p\<lparr>waiting_time := x\<rparr>) = static p"
  "static (p\<lparr>turnaround_time := x\<rparr>) = static p"
  "static (p\<lparr>remaining_time := x\<rparr>) = static p"
  by (simp_all add: static_def)

lemma static_reset_one [simp]: "static (reset_one p) = static p"
  by (simp add: reset_one_def)

lemma static_record_metrics [simp]: "static (spec_record_metrics p) = static p"
  by (simp add: spec_record_metrics_def split: option.splits)

lemma reset_one_idem [simp]: "reset_one (reset_one p) = reset_one p"
  by (simp add: reset_one_def)

lemma reset_loop_closed:
  "reset_loop ps h = (\<lambda>a. if a \<in> set ps then reset_one (h a) else h a)"
proof (induction ps arbitrary: h)
  case Nil
  show ?case by simp
next
  case (Cons a as)
  show ?case unfolding reset_loop.simps Cons.IH by (rule ext) simp
qed



lemma frame_reset: "frame (set ps) h (reset_loop ps h)"
  by (simp add: reset_loop_closed frame_def)

lemma frame_recorded: "frame (set ps) h (recorded ps h)"
  by (simp add: recorded_def frame_def)

definition fcfs_step :: "ref \<Rightarrow> int \<times> gantt_block list \<times> heap \<Rightarrow> int \<times> gantt_block list \<times> heap" where
  "fcfs_step a st =
     (case st of (t, s, h) \<Rightarrow>
        (let t1 = max t (arrival_time (h a));
             s1 = (if t < arrival_time (h a) then s @ [(t, arrival_time (h a), ''Idle'')] else s);
             t2 = t1 + burst_time (h a)
         in (t2, s1 @ [(t1, t2, pid (h a))],
             h(a := (h a)\<lparr>start_time := Some t1, completion_time := Some t2\<rparr>))))"

lemma fcfs_loop_Cons: "fcfs_loop (a # as) st = fcfs_loop as (fcfs_step a st)"
  by (cases st) (simp add: fcfs_step_def Let_def max_def)

lemma fcfs_step_frame: "a \<in> S \<Longrightarrow> frame S h (snd (snd (fcfs_step a (t, s, h))))"
  by (simp add: fcfs_step_def Let_def frame_upd)

lemma fcfs_loop_frame:
  "set procs \<subseteq> S \<Longrightarrow> frame S (snd (snd st)) (snd (snd (fcfs_loop procs st)))"
proof (induction procs arbitrary: st)
  case Nil
  show ?case by simp
next
  case (Cons a as)
  from Cons.prems have a: "a \<in> S" and as: "set as \<subseteq> S" by simp_all
  obtain t s h where st: "st = (t, s, h)" by (cases st)
  have f1: "frame S (snd (snd st)) (snd (snd (fcfs_step a st)))"
    unfolding st using fcfs_step_frame[OF a] by simp
  show ?case unfolding fcfs_loop_Cons by (rule frame_trans[OF f1 Cons.IH[OF as]])
qed

definition fcfs_run :: "ref list \<Rightarrow> heap \<Rightarrow> int \<times> gantt_block list \<times> heap" where
  "fcfs_run ps h =
     fcfs_loop (sort_key (\<lambda>a. (arrival_time (reset_loop ps h a), pid (reset_loop ps h a))) ps)
       (0, [], reset_loop ps h)"

lemma fcfs_run_frame: "frame (set ps) h (snd (snd (fcfs_run ps h)))"
proof -
  let ?h0 = "reset_loop ps h"
  let ?procs = "sort_key (\<lambda>a. (arrival_time (?h0 a), pid (?h0 a))) ps"
  have "frame (set ps) ?h0 (snd (snd (fcfs_loop ?procs (0, [], ?h0))))"
    using fcfs_loop_frame[of ?procs "set ps" "(0, [], ?h0)"] by simp
  then have "frame (set ps) h (snd (snd (fcfs_loop ?procs (0, [], ?h0))))"
    by (rule frame_trans[OF frame_reset])
  then show ?thesis by (simp add: fcfs_run_def)
qed

section \<open>The loop of the non-preemptive algorithms\<close>

definition np_pick :: "(process \<Rightarrow> int \<times> int \<times> string) \<Rightarrow> ref list \<Rightarrow> np_state \<Rightarrow> ref" where
  "np_pick key remaining st =
     arg_min_list (\<lambda>x. key (np_heap st x)) (np_ready remaining (np_heap st) (np_time st))"

definition np_run :: "ref \<Rightarrow> np_state \<Rightarrow> np_state" where
  "np_run a st =
     \<lparr>np_heap = (np_heap st)(a := (np_heap st a)\<lparr>start_time := Some (np_time st),
                   completion_time := Some (np_time st + burst_time (np_heap st a))\<rparr>),
      np_time = np_time st + burst_time (np_heap st a),
      np_completed = np_completed st + 1,
      np_schedule = np_schedule st @
        [(np_time st, np_time st + burst_time (np_heap st a), pid (np_heap st a))]\<rparr>"

definition np_jump :: "ref list \<Rightarrow> np_state \<Rightarrow> np_state" where
  "np_jump remaining st =
     st\<lparr>np_schedule := np_schedule st @
          [(np_time st, min_list (np_next_arrivals remaining (np_heap st)), ''Idle'')],
        np_time := min_list (np_next_arrivals remaining (np_heap st))\<rparr>"

lemma np_body_cases [case_names stop jump run]:
  obtains
    (stop) "np_ready remaining (np_heap st) (np_time st) = []"
           "np_next_arrivals remaining (np_heap st) = []"
           "np_body key remaining st = Break st"
  | (jump) "np_ready remaining (np_heap st) (np_time st) = []"
           "np_next_arrivals remaining (np_heap st) \<noteq> []"
           "np_body key remaining st = Continue (np_jump remaining st)"
  | (run) "np_ready remaining (np_heap st) (np_time st) \<noteq> []"
          "np_body key remaining st = Continue (np_run (np_pick key remaining st) st)"
proof (cases "np_ready remaining (np_heap st) (np_time st) = []")
  case True
  show ?thesis
  proof (cases "np_next_arrivals remaining (np_heap st) = []")
    case e: True
    with True have "np_body key remaining st = Break st" by (simp add: np_body_def)
    with True e show ?thesis by (rule stop)
  next
    case ne: False
    with True have "np_body key remaining st = Continue (np_jump remaining st)"
      by (simp add: np_body_def np_jump_def Let_def)
    with True ne show ?thesis by (rule jump)
  qed
next
  case False
  then have "np_body key remaining st = Continue (np_run (np_pick key remaining st) st)"
    by (simp add: np_body_def np_run_def np_pick_def Let_def)
  with False show ?thesis by (rule run)
qed

lemma np_pick_ready:
  "np_ready remaining (np_heap st) (np_time st) \<noteq> [] \<Longrightarrow>
   np_pick key remaining st \<in> set (np_ready remaining (np_heap st) (np_time st))"
  unfolding np_pick_def by (rule arg_min_list_in)

lemma np_loop_invariant:
  assumes init: "I st"
    and jump: "\<And>st. I st \<Longrightarrow> np_completed st < length remaining \<Longrightarrow>
         np_ready remaining (np_heap st) (np_time st) = [] \<Longrightarrow>
         np_next_arrivals remaining (np_heap st) \<noteq> [] \<Longrightarrow> I (np_jump remaining st)"
    and run: "\<And>st. I st \<Longrightarrow> np_completed st < length remaining \<Longrightarrow>
         np_ready remaining (np_heap st) (np_time st) \<noteq> [] \<Longrightarrow>
         I (np_run (np_pick key remaining st) st)"
  shows "I (np_loop key remaining st)"
  using init
proof (induction "np_measure remaining st" arbitrary: st rule: less_induct)
  case less
  show ?case
  proof (cases "np_completed st < length remaining")
    case False
    then show ?thesis using less.prems by (simp add: np_loop.simps)
  next
    case True
    show ?thesis
    proof (cases rule: np_body_cases[of remaining st key])
      case stop
      then show ?thesis using True less.prems by (simp add: np_loop.simps)
    next
      case jump
      have I': "I (np_jump remaining st)" using less.prems True jump(1,2) by (rule assms(2))
      have "np_measure remaining (np_jump remaining st) < np_measure remaining st"
        using True jump(3) by (rule np_body_decreases)
      then have "I (np_loop key remaining (np_jump remaining st))" using I' by (rule less.hyps)
      then show ?thesis using True jump(3) by (simp add: np_loop.simps[of key remaining st])
    next
      case run
      have I': "I (np_run (np_pick key remaining st) st)"
        using less.prems True run(1) by (rule assms(3))
      have "np_measure remaining (np_run (np_pick key remaining st) st) < np_measure remaining st"
        using True run(2) by (rule np_body_decreases)
      then have "I (np_loop key remaining (np_run (np_pick key remaining st) st))"
        using I' by (rule less.hyps)
      then show ?thesis using True run(2) by (simp add: np_loop.simps[of key remaining st])
    qed
  qed
qed

text \<open>When the loop ends, either the counter has reached the length of the list, or no
  process of the list is without a completion time.\<close>

lemma np_loop_exit:
  "length remaining \<le> np_completed (np_loop key remaining st) \<or>
   np_next_arrivals remaining (np_heap (np_loop key remaining st)) = []"
proof (induction "np_measure remaining st" arbitrary: st rule: less_induct)
  case less
  show ?case
  proof (cases "np_completed st < length remaining")
    case False
    then show ?thesis by (simp add: np_loop.simps)
  next
    case True
    show ?thesis
    proof (cases rule: np_body_cases[of remaining st key])
      case stop
      then show ?thesis using True by (simp add: np_loop.simps)
    next
      case jump
      have "np_measure remaining (np_jump remaining st) < np_measure remaining st"
        using True jump(3) by (rule np_body_decreases)
      from less.hyps[OF this] show ?thesis
        using True jump(3) by (simp add: np_loop.simps[of key remaining st])
    next
      case run
      have "np_measure remaining (np_run (np_pick key remaining st) st) < np_measure remaining st"
        using True run(2) by (rule np_body_decreases)
      from less.hyps[OF this] show ?thesis
        using True run(2) by (simp add: np_loop.simps[of key remaining st])
    qed
  qed
qed

lemma np_ready_subset: "set (np_ready remaining h t) \<subseteq> set remaining"
  by (auto simp: np_ready_def)

lemma np_loop_frame:
  "frame (set remaining) (np_heap st) (np_heap (np_loop key remaining st))"
proof (rule np_loop_invariant[where I = "\<lambda>s. frame (set remaining) (np_heap st) (np_heap s)"])
  show "frame (set remaining) (np_heap st) (np_heap st)" by simp
next
  fix s :: np_state assume "frame (set remaining) (np_heap st) (np_heap s)"
  then show "frame (set remaining) (np_heap st) (np_heap (np_jump remaining s))"
    by (simp add: np_jump_def)
next
  fix s :: np_state
  assume f: "frame (set remaining) (np_heap st) (np_heap s)"
    and r: "np_ready remaining (np_heap s) (np_time s) \<noteq> []"
  from np_pick_ready[OF r] np_ready_subset have "np_pick key remaining s \<in> set remaining"
    by blast
  then have "frame (set remaining) (np_heap s) (np_heap (np_run (np_pick key remaining s) s))"
    by (simp add: np_run_def frame_upd)
  with f show "frame (set remaining) (np_heap st) (np_heap (np_run (np_pick key remaining s) s))"
    by (rule frame_trans)
qed

definition np_final :: "(process \<Rightarrow> int \<times> int \<times> string) \<Rightarrow> ref list \<Rightarrow> heap \<Rightarrow> np_state" where
  "np_final key ps h =
     np_loop key ps
       \<lparr>np_heap = reset_loop ps h,
        np_time = (if ps \<noteq> [] then min_list (map (\<lambda>a. arrival_time (reset_loop ps h a)) ps) else 0),
        np_completed = 0, np_schedule = []\<rparr>"

lemma np_final_frame: "frame (set ps) h (np_heap (np_final key ps h))"
proof -
  let ?h0 = "reset_loop ps h"
  let ?t = "if ps \<noteq> [] then min_list (map (\<lambda>a. arrival_time (?h0 a)) ps) else 0"
  have "frame (set ps) ?h0 (np_heap (np_final key ps h))"
    using np_loop_frame[of ps "\<lparr>np_heap = ?h0, np_time = ?t, np_completed = 0, np_schedule = []\<rparr>" key]
    by (simp add: np_final_def)
  then show ?thesis by (rule frame_trans[OF frame_reset])
qed

section \<open>The loop of round robin\<close>

definition pop_dispatch :: "rr_state \<Rightarrow> rr_state" where
  "pop_dispatch st =
     st\<lparr>rr_ready_queue := tl (rr_ready_queue st),
        rr_heap := first_dispatch (hd (rr_ready_queue st)) (rr_time st) (rr_heap st)\<rparr>"

lemma rr_body_cases [case_names stop idle raise1 raise2 run]:
  fixes quantum procs st
  defines "sa \<equiv> admit procs st"
  defines "cur \<equiv> hd (rr_ready_queue sa)"
  obtains
    (stop) "rr_ready_queue sa = []" "\<not> rr_i sa < length procs"
           "rr_body quantum procs st = Break sa"
  | (idle) "rr_ready_queue sa = []" "rr_i sa < length procs"
           "rr_body quantum procs st = Continue (idle_jump procs sa)"
  | (raise1) "rr_ready_queue sa \<noteq> []"
           "remaining_time (rr_heap (pop_dispatch sa) cur) = None"
           "rr_body quantum procs st = Raise TypeError (pop_dispatch sa)"
  | (raise2) rem where "rr_ready_queue sa \<noteq> []"
           "remaining_time (rr_heap (pop_dispatch sa) cur) = Some rem"
           "remaining_time (rr_heap (admit procs (run_slice quantum cur rem (pop_dispatch sa))) cur) = None"
           "rr_body quantum procs st =
              Raise TypeError (admit procs (run_slice quantum cur rem (pop_dispatch sa)))"
  | (run) rem r where "rr_ready_queue sa \<noteq> []"
           "remaining_time (rr_heap (pop_dispatch sa) cur) = Some rem"
           "remaining_time (rr_heap (admit procs (run_slice quantum cur rem (pop_dispatch sa))) cur) = Some r"
           "rr_body quantum procs st =
              Continue (requeue_or_complete cur r (admit procs (run_slice quantum cur rem (pop_dispatch sa))))"
proof (cases "rr_ready_queue sa")
  case Nil
  show ?thesis
  proof (cases "rr_i sa < length procs")
    case True
    with Nil have "rr_body quantum procs st = Continue (idle_jump procs sa)"
      by (simp add: rr_body_def sa_def)
    with Nil True show ?thesis by (rule idle)
  next
    case False
    with Nil have "rr_body quantum procs st = Break sa"
      by (simp add: rr_body_def sa_def)
    with Nil False show ?thesis by (rule stop)
  qed
next
  case (Cons c rest)
  then have ne: "rr_ready_queue sa \<noteq> []" and c: "c = cur" and rest: "rest = tl (rr_ready_queue sa)"
    by (simp_all add: cur_def)
  have pd: "sa\<lparr>rr_ready_queue := rest, rr_heap := first_dispatch cur (rr_time sa) (rr_heap sa)\<rparr>
            = pop_dispatch sa"
    by (simp add: pop_dispatch_def rest cur_def)
  have body: "rr_body quantum procs st =
     (case remaining_time (rr_heap (pop_dispatch sa) cur) of
        None \<Rightarrow> Raise TypeError (pop_dispatch sa)
      | Some rem \<Rightarrow>
          (case remaining_time (rr_heap (admit procs (run_slice quantum cur rem (pop_dispatch sa))) cur) of
             None \<Rightarrow> Raise TypeError (admit procs (run_slice quantum cur rem (pop_dispatch sa)))
           | Some r \<Rightarrow> Continue (requeue_or_complete cur r
                          (admit procs (run_slice quantum cur rem (pop_dispatch sa))))))"
    unfolding rr_body_def sa_def[symmetric] Let_def Cons list.case pd c ..
  show ?thesis
  proof (cases "remaining_time (rr_heap (pop_dispatch sa) cur)")
    case None
    with body have "rr_body quantum procs st = Raise TypeError (pop_dispatch sa)" by simp
    with ne None show ?thesis by (rule raise1)
  next
    case (Some rem)
    show ?thesis
    proof (cases "remaining_time (rr_heap (admit procs (run_slice quantum cur rem (pop_dispatch sa))) cur)")
      case None
      with body Some have "rr_body quantum procs st =
          Raise TypeError (admit procs (run_slice quantum cur rem (pop_dispatch sa)))" by simp
      with ne Some None show ?thesis by (rule raise2)
    next
      case r: (Some r)
      with body Some have "rr_body quantum procs st =
          Continue (requeue_or_complete cur r (admit procs (run_slice quantum cur rem (pop_dispatch sa))))"
        by simp
      with ne Some r show ?thesis by (rule run)
    qed
  qed
qed

lemma admit_invariant:
  assumes "I st" and "\<And>s. I s \<Longrightarrow> admit_cond procs s \<Longrightarrow> I (admit_one procs s)"
  shows "I (admit procs st)"
  using assms(1)
proof (induction st rule: admit_induct[of procs])
  case (step st)
  then show ?case using assms(2) by (simp add: admit_step)
next
  case (stop st)
  then show ?case by (simp add: admit_stop)
qed

text \<open>The invariant rule of the main loop. \<open>I\<close> holds at the head of the loop and during
  the first admission; \<open>J c\<close> holds after the slice of the process \<open>c\<close> and during the
  second admission. The two places where the source can raise are excluded.\<close>

lemma rr_loop_invariant:
  assumes init: "I st"
    and adm: "\<And>s. I s \<Longrightarrow> admit_cond procs s \<Longrightarrow> I (admit_one procs s)"
    and idle: "\<And>s. I s \<Longrightarrow> \<not> admit_cond procs s \<Longrightarrow> rr_ready_queue s = [] \<Longrightarrow>
                 rr_i s < length procs \<Longrightarrow> I (idle_jump procs s)"
    and nr1: "\<And>s. I s \<Longrightarrow> \<not> admit_cond procs s \<Longrightarrow> rr_ready_queue s \<noteq> [] \<Longrightarrow>
                 remaining_time (rr_heap (pop_dispatch s) (hd (rr_ready_queue s))) \<noteq> None"
    and slice: "\<And>s rem. I s \<Longrightarrow> \<not> admit_cond procs s \<Longrightarrow> rr_ready_queue s \<noteq> [] \<Longrightarrow>
                 remaining_time (rr_heap (pop_dispatch s) (hd (rr_ready_queue s))) = Some rem \<Longrightarrow>
                 J (hd (rr_ready_queue s))
                   (run_slice quantum (hd (rr_ready_queue s)) rem (pop_dispatch s))"
    and adm2: "\<And>c s. J c s \<Longrightarrow> admit_cond procs s \<Longrightarrow> J c (admit_one procs s)"
    and nr2: "\<And>c s. J c s \<Longrightarrow> \<not> admit_cond procs s \<Longrightarrow> remaining_time (rr_heap s c) \<noteq> None"
    and fin: "\<And>c s r. J c s \<Longrightarrow> \<not> admit_cond procs s \<Longrightarrow>
                 remaining_time (rr_heap s c) = Some r \<Longrightarrow> I (requeue_or_complete c r s)"
  shows "fst (rr_loop quantum procs st) = None \<and> I (snd (rr_loop quantum procs st))"
proof -
  have "quantum' = quantum \<longrightarrow> procs' = procs \<longrightarrow> I st \<longrightarrow>
        fst (rr_loop quantum' procs' st) = None \<and> I (snd (rr_loop quantum' procs' st))"
    for quantum' procs'
  proof (induction quantum' procs' st rule: rr_loop.induct)
    case (1 q p st)
    show ?case
    proof (intro impI)
      assume eq: "q = quantum" "p = procs" and I: "I st"
      show "fst (rr_loop q p st) = None \<and> I (snd (rr_loop q p st))"
      proof (cases "0 < q \<and> (rr_i st < length p \<or> rr_ready_queue st \<noteq> [])")
        case False
        show ?thesis using I by (simp add: rr_loop.simps[of q p st] False)
      next
        case guard: True
        have unf: "rr_loop quantum procs st =
            (case rr_body quantum procs st of Continue st' \<Rightarrow> rr_loop quantum procs st'
             | Break st' \<Rightarrow> (None, st') | Raise e st' \<Rightarrow> (Some e, st'))"
          using guard eq by (simp add: rr_loop.simps[of quantum procs st])
        have IH: "rr_body quantum procs st = Continue x \<Longrightarrow> I x \<Longrightarrow>
            fst (rr_loop quantum procs x) = None \<and> I (snd (rr_loop quantum procs x))" for x
          using "1.IH"[OF guard, of x] eq by simp
        define sa where "sa = admit procs st"
        have Isa: "I sa" unfolding sa_def using I adm by (rule admit_invariant)
        have nc: "\<not> admit_cond procs sa" unfolding sa_def by (rule admit_post)
        show ?thesis
        proof (cases rule: rr_body_cases[of procs st quantum])
          case stop
          then show ?thesis using eq Isa by (simp add: unf sa_def)
        next
          case idle
          have "I (idle_jump procs sa)"
            using Isa nc idle(1,2) unfolding sa_def by (rule assms(3))
          moreover have b: "rr_body quantum procs st = Continue (idle_jump procs sa)"
            using idle(3) by (simp add: sa_def)
          ultimately show ?thesis using IH[of "idle_jump procs sa"] eq by (simp add: unf)
        next
          case raise1
          with nr1[OF Isa nc] show ?thesis by (simp add: sa_def)
        next
          case (raise2 rem)
          define c where "c = hd (rr_ready_queue sa)"
          have "J c (run_slice quantum c rem (pop_dispatch sa))"
            unfolding c_def using Isa nc raise2(1,2) unfolding sa_def by (rule slice)
          then have J: "J c (admit procs (run_slice quantum c rem (pop_dispatch sa)))"
            using adm2 by (rule admit_invariant)
          have "\<not> admit_cond procs (admit procs (run_slice quantum c rem (pop_dispatch sa)))"
            by (rule admit_post)
          from nr2[OF J this] raise2(3) show ?thesis by (simp add: sa_def c_def)
        next
          case (run rem r)
          define c where "c = hd (rr_ready_queue sa)"
          define s3 where "s3 = admit procs (run_slice quantum c rem (pop_dispatch sa))"
          have "J c (run_slice quantum c rem (pop_dispatch sa))"
            unfolding c_def using Isa nc run(1,2) unfolding sa_def by (rule slice)
          then have J: "J c s3" unfolding s3_def using adm2 by (rule admit_invariant)
          have nc3: "\<not> admit_cond procs s3" unfolding s3_def by (rule admit_post)
          have r: "remaining_time (rr_heap s3 c) = Some r"
            using run(3) by (simp add: s3_def c_def sa_def)
          have "I (requeue_or_complete c r s3)" using J nc3 r by (rule fin)
          moreover have b: "rr_body quantum procs st = Continue (requeue_or_complete c r s3)"
            using run(4) by (simp add: s3_def c_def sa_def)
          ultimately show ?thesis
            using IH[of "requeue_or_complete c r s3"] eq by (simp add: unf)
        qed
      qed
    qed
  qed
  then show ?thesis using init by simp
qed

text \<open>At the exit of the loop the queue is empty and every process has been admitted.\<close>

lemma rr_loop_exit:
  assumes "0 < quantum" "fst (rr_loop quantum procs st) = None"
  shows "rr_ready_queue (snd (rr_loop quantum procs st)) = [] \<and>
         \<not> rr_i (snd (rr_loop quantum procs st)) < length procs"
  using assms
proof (induction quantum procs st rule: rr_loop.induct)
  case (1 q p st)
  show ?case
  proof (cases "0 < q \<and> (rr_i st < length p \<or> rr_ready_queue st \<noteq> [])")
    case False
    then show ?thesis using "1.prems"(1) by (auto simp add: rr_loop.simps[of q p st])
  next
    case guard: True
    show ?thesis
    proof (cases "rr_body q p st")
      case (Continue s')
      from "1.IH"[OF guard Continue] "1.prems" guard Continue show ?thesis
        by (simp add: rr_loop.simps[of q p st])
    next
      case (Break s')
      then have "rr_ready_queue s' = [] \<and> \<not> rr_i s' < length p"
        by (cases rule: rr_body_cases[of p st q]) simp_all
      then show ?thesis using guard Break by (simp add: rr_loop.simps[of q p st])
    next
      case (Raise e s')
      then show ?thesis using guard "1.prems" by (simp add: rr_loop.simps[of q p st])
    qed
  qed
qed

section \<open>Round robin never raises for a positive quantum\<close>

definition rr_inv1 :: "ref set \<Rightarrow> heap \<Rightarrow> rr_state \<Rightarrow> bool" where
  "rr_inv1 S h0 s \<longleftrightarrow>
     frame S h0 (rr_heap s) \<and> set (rr_ready_queue s) \<subseteq> S \<and>
     (\<forall>a\<in>S. remaining_time (rr_heap s a) \<noteq> None)"

lemma frame_first_dispatch: "c \<in> S \<Longrightarrow> frame S h (first_dispatch c t h)"
  by (simp add: first_dispatch_def Let_def frame_def static_def)

lemma remaining_first_dispatch:
  "remaining_time (h a) \<noteq> None \<Longrightarrow> remaining_time (first_dispatch c t h a) \<noteq> None"
  by (simp add: first_dispatch_def Let_def)

lemma rr_inv1_admit_one:
  assumes "rr_inv1 (set procs) h0 s" "admit_cond procs s"
  shows "rr_inv1 (set procs) h0 (admit_one procs s)"
proof -
  from assms(2) have m: "procs ! rr_i s \<in> set procs" by (simp add: admit_cond_def)
  have "frame (set procs) (rr_heap s) (rr_heap (admit_one procs s))"
    using m by (simp add: admit_one_def frame_upd)
  with assms(1) have "frame (set procs) h0 (rr_heap (admit_one procs s))"
    unfolding rr_inv1_def by (blast intro: frame_trans)
  moreover have "set (rr_ready_queue (admit_one procs s)) \<subseteq> set procs"
    using assms(1) m by (simp add: rr_inv1_def admit_one_def)
  moreover have "\<forall>a\<in>set procs. remaining_time (rr_heap (admit_one procs s) a) \<noteq> None"
    using assms(1) by (simp add: rr_inv1_def admit_one_def)
  ultimately show ?thesis by (simp add: rr_inv1_def)
qed

lemma rr_inv1_pop_dispatch:
  assumes "rr_inv1 S h0 s" "rr_ready_queue s \<noteq> []"
  shows "rr_inv1 S h0 (pop_dispatch s) \<and> hd (rr_ready_queue s) \<in> S"
proof -
  from assms have c: "hd (rr_ready_queue s) \<in> S"
    by (cases "rr_ready_queue s") (auto simp: rr_inv1_def)
  have "frame S (rr_heap s) (rr_heap (pop_dispatch s))"
    using c by (simp add: pop_dispatch_def frame_first_dispatch)
  with assms(1) have "frame S h0 (rr_heap (pop_dispatch s))"
    unfolding rr_inv1_def by (blast intro: frame_trans)
  moreover have "set (rr_ready_queue (pop_dispatch s)) \<subseteq> S"
    using assms by (cases "rr_ready_queue s") (auto simp: rr_inv1_def pop_dispatch_def)
  moreover have "\<forall>a\<in>S. remaining_time (rr_heap (pop_dispatch s) a) \<noteq> None"
    using assms(1) by (simp add: rr_inv1_def pop_dispatch_def remaining_first_dispatch)
  ultimately show ?thesis using c by (simp add: rr_inv1_def)
qed

lemma rr_inv1_run_slice:
  assumes "rr_inv1 S h0 s" "c \<in> S"
  shows "rr_inv1 S h0 (run_slice quantum c rem s)"
proof -
  have "frame S (rr_heap s) (rr_heap (run_slice quantum c rem s))"
    using assms(2) by (simp add: run_slice_def Let_def frame_upd)
  with assms(1) have "frame S h0 (rr_heap (run_slice quantum c rem s))"
    unfolding rr_inv1_def by (blast intro: frame_trans)
  then show ?thesis using assms(1) by (simp add: rr_inv1_def run_slice_def Let_def)
qed

lemma rr_inv1_requeue_or_complete:
  assumes "rr_inv1 S h0 s" "c \<in> S"
  shows "rr_inv1 S h0 (requeue_or_complete c r s)"
proof -
  have "frame S (rr_heap s) (rr_heap (requeue_or_complete c r s))"
    using assms(2) by (simp add: requeue_or_complete_def frame_upd)
  with assms(1) have "frame S h0 (rr_heap (requeue_or_complete c r s))"
    unfolding rr_inv1_def by (blast intro: frame_trans)
  then show ?thesis using assms by (simp add: rr_inv1_def requeue_or_complete_def)
qed

lemma rr_loop_inv1:
  assumes "rr_inv1 (set procs) h0 st"
  shows "fst (rr_loop quantum procs st) = None \<and>
         rr_inv1 (set procs) h0 (snd (rr_loop quantum procs st))"
proof (rule rr_loop_invariant[where I = "rr_inv1 (set procs) h0"
         and J = "\<lambda>c s. rr_inv1 (set procs) h0 s \<and> c \<in> set procs"], goal_cases)
  case 1 show ?case by (rule assms)
next
  case (2 s) then show ?case by (rule rr_inv1_admit_one)
next
  case (3 s) then show ?case by (simp add: rr_inv1_def idle_jump_def Let_def)
next
  case (4 s)
  from rr_inv1_pop_dispatch[OF 4(1,3)] show ?case by (simp add: rr_inv1_def)
next
  case (5 s rem)
  from rr_inv1_pop_dispatch[OF 5(1,3)] show ?case by (simp add: rr_inv1_run_slice)
next
  case (6 c s) then show ?case by (simp add: rr_inv1_admit_one)
next
  case (7 c s) then show ?case by (simp add: rr_inv1_def)
next
  case (8 c s r) then show ?case by (simp add: rr_inv1_requeue_or_complete)
qed

lemma remaining_reset:
  "a \<in> set ps \<Longrightarrow> remaining_time (reset_loop ps h a) \<noteq> None"
  by (simp add: reset_loop_closed reset_one_def)

lemma sort_key_Nil_iff [simp]: "sort_key f xs = [] \<longleftrightarrow> xs = []"
  using length_sort[of f xs] by (simp only: length_0_conv[symmetric])

definition rr_init :: "ref list \<Rightarrow> heap \<Rightarrow> rr_state" where
  "rr_init procs h0 = \<lparr>rr_heap = h0, rr_i = 0, rr_ready_queue = [],
     rr_time = (if length procs > 0 then arrival_time (h0 (procs ! 0)) else 0), rr_schedule = []\<rparr>"

definition rr_procs :: "ref list \<Rightarrow> heap \<Rightarrow> ref list" where
  "rr_procs ps h = sort_key (\<lambda>a. arrival_time (reset_loop ps h a)) ps"

definition rr_final :: "ref list \<Rightarrow> int \<Rightarrow> heap \<Rightarrow> rr_state" where
  "rr_final ps quantum h =
     snd (rr_loop quantum (rr_procs ps h) (rr_init (rr_procs ps h) (reset_loop ps h)))"

lemma rr_procs_set [simp]: "set (rr_procs ps h) = set ps"
  by (simp add: rr_procs_def)

lemma rr_final_inv1:
  "fst (rr_loop quantum (rr_procs ps h) (rr_init (rr_procs ps h) (reset_loop ps h))) = None \<and>
   rr_inv1 (set ps) (reset_loop ps h) (rr_final ps quantum h)"
proof -
  have "rr_inv1 (set (rr_procs ps h)) (reset_loop ps h)
          (rr_init (rr_procs ps h) (reset_loop ps h))"
    by (simp add: rr_inv1_def rr_init_def remaining_reset)
  from rr_loop_inv1[OF this, of quantum] show ?thesis by (simp add: rr_final_def)
qed

lemma rr_final_frame: "frame (set ps) h (rr_heap (rr_final ps quantum h))"
proof -
  from rr_final_inv1[of quantum ps h]
  have "frame (set ps) (reset_loop ps h) (rr_heap (rr_final ps quantum h))"
    by (simp add: rr_inv1_def)
  then show ?thesis by (rule frame_trans[OF frame_reset])
qed

section \<open>The entry points in terms of their loops\<close>

text \<open>Every algorithm ends with the call of \<open>compute_metrics\<close> and the return of the
  timeline: the timeline is returned unless a division raises, and the store of objects
  is the one that the loop left, with the metrics recorded.\<close>

definition finish ::
  "truediv \<Rightarrow> ref list \<Rightarrow> world \<Rightarrow> gantt_block list \<Rightarrow> heap \<Rightarrow> (error + gantt_block list) \<times> world" where
  "finish truediv ps w schedule h1 =
     (case averages truediv (\<Sum>a\<leftarrow>ps. spec_waiting (h1 a)) (\<Sum>a\<leftarrow>ps. spec_turnaround (h1 a))
             (length ps) of
        Inl e \<Rightarrow> Inl e
      | Inr m \<Rightarrow> Inr schedule,
      w\<lparr>objects := recorded ps h1\<rparr>)"

lemma finish_eq:
  assumes "list_store w0 processes = ps"
  shows "(case compute_metrics truediv processes (w0\<lparr>objects := h1\<rparr>) of
            (Inl e, w2) \<Rightarrow> (Inl e, w2)
          | (Inr m, w2) \<Rightarrow> (Inr schedule, w2)) = finish truediv ps (w0\<lparr>objects := h1\<rparr>) schedule h1"
  using assms by (simp add: compute_metrics_eq finish_def split: sum.splits)

lemma fcfs_unfold:
  "fcfs truediv processes w =
     finish truediv (list_store w processes) w
       (fst (snd (fcfs_run (list_store w processes) (objects w))))
       (snd (snd (fcfs_run (list_store w processes) (objects w))))"
proof -
  obtain t s h1 where r: "fcfs_run (list_store w processes) (objects w) = (t, s, h1)"
    by (cases "fcfs_run (list_store w processes) (objects w)")
  have "fcfs truediv processes w =
          finish truediv (list_store w processes) (reset_processes processes w\<lparr>objects := h1\<rparr>) s h1"
    using r unfolding fcfs_def Let_def
    by (simp add: reset_processes_def fcfs_run_def finish_eq)
  then show ?thesis by (simp add: r finish_def reset_processes_def)
qed

lemma np_schedule_run_unfold:
  "np_schedule_run key truediv processes w =
     finish truediv (list_store w processes) w
       (np_schedule (np_final key (list_store w processes) (objects w)))
       (np_heap (np_final key (list_store w processes) (objects w)))"
proof -
  have "np_schedule_run key truediv processes w =
          finish truediv (list_store w processes)
            (reset_processes processes w
               \<lparr>objects := np_heap (np_final key (list_store w processes) (objects w))\<rparr>)
            (np_schedule (np_final key (list_store w processes) (objects w)))
            (np_heap (np_final key (list_store w processes) (objects w)))"
    unfolding np_schedule_run_def Let_def
    by (simp add: reset_processes_def np_final_def finish_eq)
  then show ?thesis by (simp add: finish_def reset_processes_def)
qed

text \<open>Round robin with a positive quantum never raises in its loop.\<close>

lemma round_robin_unfold:
  assumes "0 < quantum"
  shows "round_robin truediv processes quantum w =
           finish truediv (list_store w processes) w
             (rr_schedule (rr_final (list_store w processes) quantum (objects w)))
             (rr_heap (rr_final (list_store w processes) quantum (objects w)))"
proof -
  let ?ps = "list_store w processes" and ?h = "objects w"
  obtain e s where es: "rr_loop quantum (rr_procs ?ps ?h)
      (rr_init (rr_procs ?ps ?h) (reset_loop ?ps ?h)) = (e, s)"
    by (cases "rr_loop quantum (rr_procs ?ps ?h) (rr_init (rr_procs ?ps ?h) (reset_loop ?ps ?h))")
  with rr_final_inv1[of quantum ?ps ?h] have e: "e = None" and s: "s = rr_final ?ps quantum ?h"
    by (simp_all add: rr_final_def)
  have "round_robin truediv processes quantum w =
          finish truediv ?ps (reset_processes processes w\<lparr>objects := rr_heap s\<rparr>)
            (rr_schedule s) (rr_heap s)"
  proof (cases "list_store w processes = []")
    case True
    then show ?thesis
      using assms es[unfolded rr_procs_def rr_init_def] unfolding e
      by (simp add: round_robin_def Let_def reset_processes_def finish_eq)
  next
    case False
    then show ?thesis
      using assms es[unfolded rr_procs_def rr_init_def] unfolding e
      by (simp add: round_robin_def Let_def reset_processes_def finish_eq)
  qed
  then show ?thesis by (simp add: s finish_def reset_processes_def)
qed








text \<open>What a call leaves: the list store as it was, and an object store in the frame of
  the list.\<close>

lemma finish_lists [simp]: "list_store (snd (finish truediv ps w s h1)) = list_store w"
  by (simp add: finish_def)

lemma finish_objects [simp]: "objects (snd (finish truediv ps w s h1)) = recorded ps h1"
  by (simp add: finish_def)

lemma fcfs_frame:
  "frame (set (list_store w processes)) (objects w) (objects (snd (fcfs truediv processes w)))"
  unfolding fcfs_unfold finish_objects
  by (rule frame_trans[OF fcfs_run_frame frame_recorded])

lemma np_schedule_run_frame:
  "frame (set (list_store w processes)) (objects w)
     (objects (snd (np_schedule_run key truediv processes w)))"
  unfolding np_schedule_run_unfold finish_objects
  by (rule frame_trans[OF np_final_frame frame_recorded])

lemma round_robin_frame:
  "frame (set (list_store w processes)) (objects w)
     (objects (snd (round_robin truediv processes quantum w)))"
proof (cases "0 < quantum")
  case True
  show ?thesis unfolding round_robin_unfold[OF True] finish_objects
    by (rule frame_trans[OF rr_final_frame frame_recorded])
next
  case False
  then show ?thesis by (simp add: round_robin_def)
qed

lemma compute_metrics_frame:
  "frame (set (list_store w processes)) (objects w)
     (objects (snd (compute_metrics truediv processes w)))"
  by (simp add: compute_metrics_eq frame_recorded)

lemma fcfs_lists: "list_store (snd (fcfs truediv processes w)) = list_store w"
  by (simp add: fcfs_unfold)

lemma np_schedule_run_lists: "list_store (snd (np_schedule_run key truediv processes w)) = list_store w"
  by (simp add: np_schedule_run_unfold)

lemma round_robin_lists: "list_store (snd (round_robin truediv processes quantum w)) = list_store w"
proof (cases "0 < quantum")
  case True
  show ?thesis unfolding round_robin_unfold[OF True] by simp
next
  case False
  then show ?thesis by (simp add: round_robin_def)
qed

lemma compute_metrics_lists: "list_store (snd (compute_metrics truediv processes w)) = list_store w"
  by (simp add: compute_metrics_eq)




section \<open>The reset at the start of a call\<close>




text \<open>The loops of \<open>fcfs\<close> and of the non-preemptive algorithms, and the recording of
  the metrics, leave \<open>remaining_time\<close> as the reset set it.\<close>

definition keeps_remaining :: "heap \<Rightarrow> heap \<Rightarrow> bool" where
  "keeps_remaining h h' \<longleftrightarrow> (\<forall>a. remaining_time (h' a) = remaining_time (h a))"

lemma keeps_remaining_refl [simp]: "keeps_remaining h h"
  by (simp add: keeps_remaining_def)








section \<open>Evaluation of the worked example\<close>

lemma spec_waiting_recorded [simp]: "spec_waiting (recorded ps h a) = spec_waiting (h a)"
  by (simp add: recorded_def)

lemma spec_turnaround_recorded [simp]: "spec_turnaround (recorded ps h a) = spec_turnaround (h a)"
  by (simp add: recorded_def)

lemma recorded_idem [simp]: "recorded ps (recorded ps h) = recorded ps h"
  by (rule ext) (simp add: recorded_def)

lemma example_world_simps [simp]:
  "list_store example_world 0 = [0, 1, 2]" "objects example_world = example_heap"
  by (simp_all add: example_world_def)

lemma averages_cases:
  "0 < n \<Longrightarrow> averages truediv tw tt n =
     (case truediv tw (int n) of
        Inl e \<Rightarrow> Inl e
      | Inr qw \<Rightarrow> (case truediv tt (int n) of
                      Inl e \<Rightarrow> Inl e
                    | Inr qt \<Rightarrow> Inr \<lparr>avg_waiting_time = qw, avg_turnaround_time = qt\<rparr>))"
  by (simp add: averages_def)

lemma averages_three:
  "averages truediv tw tt (length [a, b, c]) =
     (case truediv tw 3 of
        Inl e \<Rightarrow> Inl e
      | Inr qw \<Rightarrow> (case truediv tt 3 of
                      Inl e \<Rightarrow> Inl e
                    | Inr qt \<Rightarrow> Inr \<lparr>avg_waiting_time = qw, avg_turnaround_time = qt\<rparr>))"
  by (simp add: averages_def split: sum.splits)

lemma averages_empty: "averages truediv tw tt 0 = Inr \<lparr>avg_waiting_time = 0, avg_turnaround_time = 0\<rparr>"
  by (simp add: averages_def)

lemma fcfs_example_run:
  "fst (snd (fcfs_run [0, 1, 2] example_heap)) = [(0, 4, ''P1''), (4, 7, ''P2''), (7, 8, ''P3'')]"
  "(\<Sum>a\<leftarrow>[0, 1, 2]. spec_waiting (snd (snd (fcfs_run [0, 1, 2] example_heap)) a)) = 8"
  "(\<Sum>a\<leftarrow>[0, 1, 2]. spec_turnaround (snd (snd (fcfs_run [0, 1, 2] example_heap)) a)) = 16"
  "map (\<lambda>a. waiting_time (recorded [0, 1, 2] (snd (snd (fcfs_run [0, 1, 2] example_heap))) a))
     [0, 1, 2] = [Some 0, Some 3, Some 5]"
  by code_simp+

lemma rr_example_run:
  "rr_schedule (rr_final [0, 1, 2] 2 example_heap) =
     [(0, 2, ''P1''), (2, 4, ''P2''), (4, 5, ''P3''), (5, 7, ''P1''), (7, 8, ''P2'')]"
  "(\<Sum>a\<leftarrow>[0, 1, 2]. spec_waiting (rr_heap (rr_final [0, 1, 2] 2 example_heap) a)) = 9"
  "(\<Sum>a\<leftarrow>[0, 1, 2]. spec_turnaround (rr_heap (rr_final [0, 1, 2] 2 example_heap) a)) = 17"
  by code_simp+

section \<open>Claims settled on the worked example and on the guards\<close>

text \<open>
  C1. For every list of processes and every quantum \<open>\<le> 0\<close>, \<open>round_robin\<close> raises the
  configuration error before any scheduling work: the result is the error, no timeline,
  and the world is the one before the call, so every field of every process is as it was.
\<close>

theorem round_robin_rejects_quantum:
  assumes "quantum \<le> 0"
  shows "round_robin truediv processes quantum w = (Inl ValueError, w)"
  using assms by (simp add: round_robin_def)

theorem round_robin_rejects_quantum_witness:
  "(0::int) \<le> 0 \<and> round_robin exact_div 0 0 example_world = (Inl ValueError, example_world)"
  using round_robin_rejects_quantum [of 0 exact_div 0 example_world] by simp

text \<open>
  C4. On P1(0,4), P2(1,3), P3(2,1), \<open>fcfs\<close> computes the timeline
  \<open>[(0,4,P1),(4,7,P2),(7,8,P3)]\<close> and returns it once its closing \<open>compute_metrics\<close> has
  divided 8 by 3 and 16 by 3; the waiting times left in the records are 0, 3 and 5; and
  \<open>compute_metrics\<close> on the resulting records returns, as average waiting time, what the
  true division of 8 by 3 returns (Python: the float nearest to 8/3, 2.667 to three
  places). With the division that does not round, the timeline is returned and the
  average waiting time is 8/3.
\<close>

theorem fcfs_example:
  "fst (fcfs truediv 0 example_world) =
     (case truediv 8 3 of
        Inl e \<Rightarrow> Inl e
      | Inr qw \<Rightarrow> (case truediv 16 3 of
                      Inl e \<Rightarrow> Inl e
                    | Inr qt \<Rightarrow> Inr [(0, 4, ''P1''), (4, 7, ''P2''), (7, 8, ''P3'')]))
   \<and> map (\<lambda>a. waiting_time (objects (snd (fcfs truediv 0 example_world)) a)) [0, 1, 2] =
       [Some 0, Some 3, Some 5]
   \<and> fst (compute_metrics truediv 0 (snd (fcfs truediv 0 example_world))) =
       (case truediv 8 3 of
          Inl e \<Rightarrow> Inl e
        | Inr qw \<Rightarrow> (case truediv 16 3 of
                        Inl e \<Rightarrow> Inl e
                      | Inr qt \<Rightarrow> Inr \<lparr>avg_waiting_time = qw, avg_turnaround_time = qt\<rparr>))
   \<and> fst (fcfs exact_div 0 example_world) = Inr [(0, 4, ''P1''), (4, 7, ''P2''), (7, 8, ''P3'')]
   \<and> fst (compute_metrics exact_div 0 (snd (fcfs exact_div 0 example_world))) =
       Inr \<lparr>avg_waiting_time = 8 / 3, avg_turnaround_time = 16 / 3\<rparr>"
proof -
  have 1: "fst (fcfs d 0 example_world) =
     (case d 8 3 of
        Inl e \<Rightarrow> Inl e
      | Inr qw \<Rightarrow> (case d 16 3 of
                      Inl e \<Rightarrow> Inl e
                    | Inr qt \<Rightarrow> Inr [(0, 4, ''P1''), (4, 7, ''P2''), (7, 8, ''P3'')]))" for d
  proof -
    have "fst (fcfs d 0 example_world) =
            (case averages d 8 16 (length [0::nat, 1, 2]) of
               Inl e \<Rightarrow> Inl e
             | Inr m \<Rightarrow> Inr [(0, 4, ''P1''), (4, 7, ''P2''), (7, 8, ''P3'')])"
      unfolding fcfs_unfold finish_def example_world_simps fst_conv fcfs_example_run ..
    then show ?thesis unfolding averages_three by (simp split: sum.splits)
  qed
  have 2: "map (\<lambda>a. waiting_time (objects (snd (fcfs d 0 example_world)) a)) [0, 1, 2] =
       [Some 0, Some 3, Some 5]" for d
    unfolding fcfs_unfold finish_objects example_world_simps by (rule fcfs_example_run(4))
  have 3: "fst (compute_metrics d 0 (snd (fcfs d 0 example_world))) =
       (case d 8 3 of
          Inl e \<Rightarrow> Inl e
        | Inr qw \<Rightarrow> (case d 16 3 of
                        Inl e \<Rightarrow> Inl e
                      | Inr qt \<Rightarrow> Inr \<lparr>avg_waiting_time = qw, avg_turnaround_time = qt\<rparr>))" for d
  proof -
    have "fst (compute_metrics d 0 (snd (fcfs d 0 example_world))) =
            averages d 8 16 (length [0::nat, 1, 2])"
      unfolding compute_metrics_eq fst_conv finish_lists finish_objects fcfs_unfold
        example_world_simps spec_waiting_recorded spec_turnaround_recorded fcfs_example_run ..
    then show ?thesis by (simp only: averages_three)
  qed
  have 4: "exact_div 8 3 = Inr (8 / 3)" "exact_div 16 3 = Inr (16 / 3)"
    by (simp_all add: exact_div_def)
  show ?thesis unfolding 1 2 3 4 by simp
qed

text \<open>
  C6. On the same three processes with quantum 2: the arrival-sorted list is P1, P2, P3;
  after the first pass of the loop the timeline is \<open>[(0,2,P1)]\<close> and the ready queue is
  P2, P3, P1, with 2 units remaining for P1 (the arrivals during the slice were queued
  before P1 was put back); the whole timeline is
  \<open>[(0,2,P1),(2,4,P2),(4,5,P3),(5,7,P1),(7,8,P2)]\<close>, returned once the closing
  \<open>compute_metrics\<close> has divided 9 by 3 and 17 by 3, as it is with the division that does
  not round.
\<close>

theorem round_robin_example:
  "(let w0 = reset_processes 0 example_world;
        procs = sort_key (\<lambda>a. arrival_time (objects w0 a)) (list_store w0 0)
    in procs = [0, 1, 2] \<and>
       (case rr_body 2 procs \<lparr>rr_heap = objects w0, rr_i = 0, rr_ready_queue = [],
                               rr_time = arrival_time (objects w0 (procs ! 0)),
                               rr_schedule = []\<rparr> of
          Continue st \<Rightarrow>
            rr_schedule st = [(0, 2, ''P1'')] \<and>
            map (\<lambda>a. pid (rr_heap st a)) (rr_ready_queue st) = [''P2'', ''P3'', ''P1''] \<and>
            rr_ready_queue st = [1, 2, 0] \<and>
            remaining_time (rr_heap st 0) = Some 2
        | Break st \<Rightarrow> False
        | Raise e st \<Rightarrow> False))
   \<and> fst (round_robin truediv 0 2 example_world) =
       (case truediv 9 3 of
          Inl e \<Rightarrow> Inl e
        | Inr qw \<Rightarrow>
            (case truediv 17 3 of
               Inl e \<Rightarrow> Inl e
             | Inr qt \<Rightarrow>
                 Inr [(0, 2, ''P1''), (2, 4, ''P2''), (4, 5, ''P3''), (5, 7, ''P1''), (7, 8, ''P2'')]))
   \<and> fst (round_robin exact_div 0 2 example_world) =
       Inr [(0, 2, ''P1''), (2, 4, ''P2''), (4, 5, ''P3''), (5, 7, ''P1''), (7, 8, ''P2'')]"
proof -
  have 1: "(let w0 = reset_processes 0 example_world;
        procs = sort_key (\<lambda>a. arrival_time (objects w0 a)) (list_store w0 0)
    in procs = [0, 1, 2] \<and>
       (case rr_body 2 procs \<lparr>rr_heap = objects w0, rr_i = 0, rr_ready_queue = [],
                               rr_time = arrival_time (objects w0 (procs ! 0)),
                               rr_schedule = []\<rparr> of
          Continue st \<Rightarrow>
            rr_schedule st = [(0, 2, ''P1'')] \<and>
            map (\<lambda>a. pid (rr_heap st a)) (rr_ready_queue st) = [''P2'', ''P3'', ''P1''] \<and>
            rr_ready_queue st = [1, 2, 0] \<and>
            remaining_time (rr_heap st 0) = Some 2
        | Break st \<Rightarrow> False
        | Raise e st \<Rightarrow> False))"
    by code_simp
  have 2: "fst (round_robin d 0 2 example_world) =
       (case d 9 3 of
          Inl e \<Rightarrow> Inl e
        | Inr qw \<Rightarrow>
            (case d 17 3 of
               Inl e \<Rightarrow> Inl e
             | Inr qt \<Rightarrow>
                 Inr [(0, 2, ''P1''), (2, 4, ''P2''), (4, 5, ''P3''), (5, 7, ''P1''), (7, 8, ''P2'')]))"
    for d
  proof -
    have "fst (round_robin d 0 2 example_world) =
            (case averages d 9 17 (length [0::nat, 1, 2]) of
               Inl e \<Rightarrow> Inl e
             | Inr m \<Rightarrow>
                 Inr [(0, 2, ''P1''), (2, 4, ''P2''), (4, 5, ''P3''), (5, 7, ''P1''), (7, 8, ''P2'')])"
      unfolding round_robin_unfold[of 2, simplified] finish_def example_world_simps fst_conv
        rr_example_run ..
    then show ?thesis unfolding averages_three by (simp split: sum.splits)
  qed
  have 3: "exact_div 9 3 = Inr 3" "exact_div 17 3 = Inr (17 / 3)"
    by (simp_all add: exact_div_def)
  show ?thesis unfolding 2 3 using 1 by simp
qed

text \<open>
  C9. When the caller's list is empty, each of the four algorithms returns the empty
  timeline, without error and without touching the world (round robin with any positive
  quantum): the clocks start at 0, no loop is entered and nothing is divided.
\<close>

theorem empty_list_schedules:
  assumes "list_store w processes = []" and "0 < quantum"
  shows "fcfs truediv processes w = (Inr [], w)
         \<and> sjf_non_preemptive truediv processes w = (Inr [], w)
         \<and> priority_non_preemptive truediv processes w = (Inr [], w)
         \<and> round_robin truediv processes quantum w = (Inr [], w)"
  using assms
  by (simp add: fcfs_def sjf_non_preemptive_def priority_non_preemptive_def np_schedule_run_def
        round_robin_def compute_metrics_def reset_processes_def np_loop.simps rr_loop.simps)

theorem empty_list_schedules_witness:
  "list_store example_world 1 = [] \<and> (0::int) < 1
   \<and> fcfs exact_div 1 example_world = (Inr [], example_world)
   \<and> sjf_non_preemptive exact_div 1 example_world = (Inr [], example_world)
   \<and> priority_non_preemptive exact_div 1 example_world = (Inr [], example_world)
   \<and> round_robin exact_div 1 1 example_world = (Inr [], example_world)"
  using empty_list_schedules [of example_world 1 1 exact_div] by (simp add: example_world_def)

section \<open>Claims about the helpers and the frame of the algorithms\<close>

text \<open>
  C7. \<open>compute_metrics\<close> skips every record whose completion time is unset: such a
  record is left as it was (the store of objects is only changed at the completed
  records of the list, where the two metrics are written), and it is left out of the two
  sums. The totals are nevertheless divided by the length of the whole list: the averages
  returned are what the true division of each total by that length returns, and when a
  division raises, its error is the outcome and the records keep the metrics written.
  On the empty list nothing is divided and both averages are 0.
\<close>

theorem compute_metrics_closed_form:
  "compute_metrics truediv processes w =
     (let ps = list_store w processes;
          completed = filter (\<lambda>a. completion_time (objects w a) \<noteq> None) ps;
          total_waiting = (\<Sum>a\<leftarrow>completed. spec_waiting (objects w a));
          total_turnaround = (\<Sum>a\<leftarrow>completed. spec_turnaround (objects w a))
      in (if ps = [] then Inr \<lparr>avg_waiting_time = 0, avg_turnaround_time = 0\<rparr>
          else (case truediv total_waiting (int (length ps)) of
                  Inl e \<Rightarrow> Inl e
                | Inr qw \<Rightarrow>
                    (case truediv total_turnaround (int (length ps)) of
                       Inl e \<Rightarrow> Inl e
                     | Inr qt \<Rightarrow> Inr \<lparr>avg_waiting_time = qw, avg_turnaround_time = qt\<rparr>)),
          w\<lparr>objects :=
               (\<lambda>a. if a \<in> set ps \<and> completion_time (objects w a) \<noteq> None
                    then (objects w a)\<lparr>turnaround_time := Some (spec_turnaround (objects w a)),
                                       waiting_time := Some (spec_waiting (objects w a))\<rparr>
                    else objects w a)\<rparr>))"
proof -
  let ?ps = "list_store w processes" and ?h = "objects w"
  have w: "(\<Sum>a\<leftarrow>filter (\<lambda>a. completion_time (?h a) \<noteq> None) ?ps. spec_waiting (?h a)) =
           (\<Sum>a\<leftarrow>?ps. spec_waiting (?h a))"
    unfolding sum_list_map_filter'
    by (rule sum_list_cong_map) (simp add: spec_waiting_def)
  have t: "(\<Sum>a\<leftarrow>filter (\<lambda>a. completion_time (?h a) \<noteq> None) ?ps. spec_turnaround (?h a)) =
           (\<Sum>a\<leftarrow>?ps. spec_turnaround (?h a))"
    unfolding sum_list_map_filter'
    by (rule sum_list_cong_map) (simp add: spec_turnaround_def)
  have hh: "(\<lambda>a. if a \<in> set ?ps \<and> completion_time (?h a) \<noteq> None
                 then (?h a)\<lparr>turnaround_time := Some (spec_turnaround (?h a)),
                            waiting_time := Some (spec_waiting (?h a))\<rparr>
                 else ?h a) = recorded ?ps ?h"
    by (rule ext)
       (auto simp: recorded_def spec_record_metrics_def spec_turnaround_def spec_waiting_def)
  have a: "averages truediv tw tt (length ?ps) =
      (if ?ps = [] then Inr \<lparr>avg_waiting_time = 0, avg_turnaround_time = 0\<rparr>
       else (case truediv tw (int (length ?ps)) of
               Inl e \<Rightarrow> Inl e
             | Inr qw \<Rightarrow>
                 (case truediv tt (int (length ?ps)) of
                    Inl e \<Rightarrow> Inl e
                  | Inr qt \<Rightarrow> Inr \<lparr>avg_waiting_time = qw, avg_turnaround_time = qt\<rparr>)))" for tw tt
    by (simp add: averages_def)
  show ?thesis unfolding Let_def w t hh a[symmetric] by (rule compute_metrics_eq)
qed

text \<open>
  C10. The static fields \<open>pid\<close>, \<open>arrival_time\<close>, \<open>burst_time\<close> and \<open>priority\<close> of every
  record of the store are the same after each of the five operations as before it, and
  every list object of the world, the caller's list among them, has after the operation
  the content it had before: the same records in the same order. This holds whatever the
  outcome of the operation is: a timeline, the error of a rejected quantum, or the error
  of a division.
\<close>

theorem static_fields_unchanged:
  "static (objects (snd (fcfs truediv processes w)) a) = static (objects w a) \<and>
   static (objects (snd (sjf_non_preemptive truediv processes w)) a) = static (objects w a) \<and>
   static (objects (snd (priority_non_preemptive truediv processes w)) a) = static (objects w a) \<and>
   static (objects (snd (round_robin truediv processes quantum w)) a) = static (objects w a) \<and>
   static (objects (snd (compute_metrics truediv processes w)) a) = static (objects w a) \<and>
   list_store (snd (fcfs truediv processes w)) = list_store w \<and>
   list_store (snd (sjf_non_preemptive truediv processes w)) = list_store w \<and>
   list_store (snd (priority_non_preemptive truediv processes w)) = list_store w \<and>
   list_store (snd (round_robin truediv processes quantum w)) = list_store w \<and>
   list_store (snd (compute_metrics truediv processes w)) = list_store w"
proof -
  have s: "frame S h h' \<Longrightarrow> static (h' b) = static (h b)" for S h h' b
    by (simp add: frame_def)
  have 1: "static (objects (snd (fcfs truediv processes w)) a) = static (objects w a)"
    by (rule s[OF fcfs_frame])
  have 2: "static (objects (snd (sjf_non_preemptive truediv processes w)) a) = static (objects w a)"
    unfolding sjf_non_preemptive_def by (rule s[OF np_schedule_run_frame])
  have 3: "static (objects (snd (priority_non_preemptive truediv processes w)) a) =
           static (objects w a)"
    unfolding priority_non_preemptive_def by (rule s[OF np_schedule_run_frame])
  have 4: "static (objects (snd (round_robin truediv processes quantum w)) a) =
           static (objects w a)"
    by (rule s[OF round_robin_frame])
  have 5: "static (objects (snd (compute_metrics truediv processes w)) a) = static (objects w a)"
    by (rule s[OF compute_metrics_frame])
  have 6: "list_store (snd (sjf_non_preemptive truediv processes w)) = list_store w"
    unfolding sjf_non_preemptive_def by (rule np_schedule_run_lists)
  have 7: "list_store (snd (priority_non_preemptive truediv processes w)) = list_store w"
    unfolding priority_non_preemptive_def by (rule np_schedule_run_lists)
  show ?thesis
    by (simp add: 1 2 3 4 5 6 7 fcfs_lists round_robin_lists compute_metrics_lists)
qed


end
